theory Spec2Isabelle
  imports
    Main
    "HOL-Library.Multiset"
    "HOL-Library.Sublist"
    "HOL-Library.List_Lexorder"
    "HOL-Library.Product_Lexorder"
begin

section \<open>Data model (models.py)\<close>

text \<open>
  A Python \<open>str\<close> is a sequence of Unicode code points and is modelled as a list of
  natural numbers; \<open>ustr\<close> gives the \<open>str\<close> of an ASCII literal. Python integers are
  unbounded and modelled as \<open>int\<close>.

  A \<open>datetime\<close> is modelled as the integer number of microseconds (the resolution of
  Python's \<open>datetime\<close>) since 1970-01-01 00:00:00, a \<open>timedelta\<close> as a signed number
  of microseconds. Python's \<open>datetime\<close> covers the years 1 to 9999, from
  \<open>datetime_min\<close> to \<open>datetime_max\<close>.
\<close>

type_synonym codepoint = nat

type_synonym str = "codepoint list"

definition ustr :: "string \<Rightarrow> str" where
  "ustr s = map of_char s"

definition datetime_min :: int where
  "datetime_min = - 62135596800000000"

definition datetime_max :: int where
  "datetime_max = 253402300799999999"

datatype Platform = REDDIT | LUMBERJOCKS | SAWMILLCREEK | FACEBOOK

fun platform_value :: "Platform \<Rightarrow> str" where
  "platform_value REDDIT = ustr ''reddit''"
| "platform_value LUMBERJOCKS = ustr ''lumberjocks''"
| "platform_value SAWMILLCREEK = ustr ''sawmillcreek''"
| "platform_value FACEBOOK = ustr ''facebook''"

record Post =
  platform :: Platform
  post_id :: str
  title :: str
  content :: str
  author :: str
  url :: str
  timestamp :: int
  score :: int
  keyword_matches :: "str list"
  has_external_links :: bool

record ScoringResult =
  post :: Post
  keyword_score :: int
  time_bonus :: int
  link_penalty :: int
  final_score :: int
  matched_keywords :: "str list"

record ScoringConfig =
  keyword_match :: int
  recent_post_bonus :: int
  external_link_penalty :: int
  max_posts_per_run :: int

text \<open>
  \<open>Post.age_minutes\<close> is \<open>int((datetime.now() - self.timestamp).total_seconds() / 60)\<close>:
  Python's \<open>int\<close> truncates towards zero. The quotient is taken exactly here; the
  source computes it in floating point, whose rounding changes neither the sign of the
  age nor its comparison with 60 (timestamps are whole microseconds). The difference of
  two datetimes is always a \<open>timedelta\<close>. The clock reading \<open>now\<close> is an input.
\<close>

definition trunc_div :: "int \<Rightarrow> int \<Rightarrow> int" where
  "trunc_div a b = (if 0 \<le> a then a div b else - ((- a) div b))"

definition age_minutes :: "int \<Rightarrow> Post \<Rightarrow> int" where
  "age_minutes now p = trunc_div (now - timestamp p) 60000000"

definition is_recent :: "int \<Rightarrow> Post \<Rightarrow> bool" where
  "is_recent now p = (age_minutes now p < 60)"

section \<open>Keyword store (database.py)\<close>

text \<open>
  A row of the \<open>keywords\<close> table as the queries select it:
  \<open>(keyword, category, score_value)\<close>. Of the \<open>posts\<close> table only the columns
  \<open>(platform, post_id)\<close> are read by the code modelled here. Every query opens its own
  connection inside a \<open>try\<close> block; \<open>fault\<close> is the exception that block raises,
  if any.

  No handler of the code tells exceptions apart beyond \<open>except sqlite3.Error\<close> and
  \<open>except Exception\<close>: \<open>Sqlite3_Error\<close> stands for the exceptions the first one
  catches, \<open>Other_Exception\<close> for an exception of any other subclass of
  \<open>Exception\<close>, \<open>OverflowError\<close> among them.
\<close>

type_synonym keyword_row = "str \<times> str \<times> int"

datatype exn = Sqlite3_Error | Other_Exception

record Database =
  keywords_table :: "keyword_row list"
  posts_table :: "(str \<times> str) list"
  fault :: "exn option"

text \<open>
  The body of the \<open>try\<close> block of \<open>get_keywords\<close>: the two \<open>SELECT\<close> statements.
  \<open>if category:\<close> is false for \<open>None\<close> and for the empty string. Text columns
  are compared bytewise in their UTF-8 encoding (SQLite's default collation), which is
  the lexicographic order on code points; \<open>DESC\<close> on the integer column is the
  ascending order of its negation. The \<open>keyword\<close> column is \<open>UNIQUE\<close>, so no two
  rows of a real table tie on the whole sort key.
\<close>

definition select_keywords :: "Database \<Rightarrow> str option \<Rightarrow> exn + keyword_row list" where
  "select_keywords db category =
     (case fault db of
        Some e \<Rightarrow> Inl e
      | None \<Rightarrow>
          (case category of
             Some cat \<Rightarrow>
               (if cat \<noteq> []
                then Inr (sort_key (\<lambda>(k, c, w). (- w, k))
                           (filter (\<lambda>(k, c, w). c = cat) (keywords_table db)))
                else Inr (sort_key (\<lambda>(k, c, w). (c, - w, k)) (keywords_table db)))
           | None \<Rightarrow> Inr (sort_key (\<lambda>(k, c, w). (c, - w, k)) (keywords_table db))))"

text \<open>\<open>DatabaseManager.get_keywords\<close>: \<open>except sqlite3.Error\<close> logs and returns \<open>[]\<close>.\<close>

definition get_keywords :: "Database \<Rightarrow> str option \<Rightarrow> exn + keyword_row list" where
  "get_keywords db category =
     (case select_keywords db category of
        Inl Sqlite3_Error \<Rightarrow> Inr []
      | Inl e \<Rightarrow> Inl e
      | Inr rows \<Rightarrow> Inr rows)"

text \<open>\<open>DatabaseManager.is_post_processed\<close>: \<open>except sqlite3.Error\<close> returns \<open>False\<close>.\<close>

definition is_post_processed :: "Database \<Rightarrow> str \<Rightarrow> str \<Rightarrow> exn + bool" where
  "is_post_processed db plat pid =
     (case fault db of
        Some Sqlite3_Error \<Rightarrow> Inr False
      | Some e \<Rightarrow> Inl e
      | None \<Rightarrow> Inr ((plat, pid) \<in> set (posts_table db)))"

section \<open>KeywordMatcher (scorer.py)\<close>

record KeywordMatcher =
  keyword_cache :: "keyword_row list option"
  cache_timestamp :: "int option"

definition cache_ttl :: int where
  "cache_ttl = 300"

text \<open>
  \<open>KeywordMatcher._get_keywords\<close>. The result pairs the returned value (or the
  exception that leaves the method) with the matcher after the call; a raising read
  leaves the cache as it was. \<open>total_seconds() > 300\<close> is compared in microseconds;
  Python's \<open>or\<close> reads the timestamp only when it is not \<open>None\<close>.
\<close>

definition matcher_get_keywords ::
  "Database \<Rightarrow> int \<Rightarrow> KeywordMatcher \<Rightarrow> (exn + keyword_row list) \<times> KeywordMatcher" where
  "matcher_get_keywords db now m =
     (if keyword_cache m = None \<or> cache_timestamp m = None
         \<or> now - the (cache_timestamp m) > cache_ttl * 1000000
      then (case get_keywords db None of
              Inl e \<Rightarrow> (Inl e, m)
            | Inr rows \<Rightarrow> (Inr rows, m\<lparr>keyword_cache := Some rows, cache_timestamp := Some now\<rparr>))
      else (Inr (the (keyword_cache m)), m))"

subsection \<open>The regular expression of find_matches\<close>

text \<open>
  \<open>str.lower\<close> and the class \<open>\w\<close> of a \<open>str\<close> pattern consult the Unicode
  character database of the interpreter, which is no part of the repository. The two
  tables are parameters of the model: \<open>word_char\<close> says which code points \<open>\w\<close>
  matches, \<open>str_lower\<close> is \<open>str.lower\<close>. Nothing is assumed of them.
\<close>

record Unicode =
  word_char :: "codepoint \<Rightarrow> bool"
  str_lower :: "str \<Rightarrow> str"

text \<open>
  \<open>\b\<close> holds between two neighbouring positions when exactly one of them holds a
  word character; a position outside the string (\<open>None\<close>) counts as a non-word
  character.
\<close>

fun word_at :: "Unicode \<Rightarrow> codepoint option \<Rightarrow> bool" where
  "word_at u None = False"
| "word_at u (Some c) = word_char u c"

definition boundary :: "Unicode \<Rightarrow> codepoint option \<Rightarrow> codepoint option \<Rightarrow> bool" where
  "boundary u a b = (word_at u a \<noteq> word_at u b)"

fun first_char :: "str \<Rightarrow> codepoint option" where
  "first_char [] = None"
| "first_char (c # cs) = Some c"

text \<open>
  The pattern \<open>\b\<close> + \<open>re.escape(keyword)\<close> + \<open>\b\<close> tried at one position:
  \<open>prev\<close> is the character before the position, \<open>rest\<close> the text from it on.
\<close>

definition match_here :: "Unicode \<Rightarrow> codepoint option \<Rightarrow> str \<Rightarrow> str \<Rightarrow> bool" where
  "match_here u prev kw rest =
     (boundary u prev (first_char rest)
      \<and> take (length kw) rest = kw
      \<and> boundary u (if kw = [] then prev else Some (last kw))
                  (first_char (drop (length kw) rest)))"

text \<open>\<open>re.search\<close> tries every start position, the end of the text included.\<close>

fun search_from :: "Unicode \<Rightarrow> codepoint option \<Rightarrow> str \<Rightarrow> str \<Rightarrow> bool" where
  "search_from u prev kw [] = match_here u prev kw []"
| "search_from u prev kw (c # cs) =
     (match_here u prev kw (c # cs) \<or> search_from u (Some c) kw cs)"

definition re_search_word :: "Unicode \<Rightarrow> str \<Rightarrow> str \<Rightarrow> bool" where
  "re_search_word u kw text = search_from u None kw text"

subsection \<open>find_matches and calculate_keyword_score\<close>

text \<open>The \<open>for\<close> loop of \<open>find_matches\<close> over the cached rows.\<close>

fun find_matches_loop ::
  "Unicode \<Rightarrow> str \<Rightarrow> keyword_row list \<Rightarrow> keyword_row list \<Rightarrow> keyword_row list" where
  "find_matches_loop u text_lower matches [] = matches"
| "find_matches_loop u text_lower matches ((k, c, w) # keywords) =
     (if re_search_word u k text_lower
      then find_matches_loop u text_lower (matches @ [(k, c, w)]) keywords
      else find_matches_loop u text_lower matches keywords)"

definition find_matches ::
  "Unicode \<Rightarrow> Database \<Rightarrow> int \<Rightarrow> KeywordMatcher \<Rightarrow> str
     \<Rightarrow> (exn + keyword_row list) \<times> KeywordMatcher" where
  "find_matches u db now m text =
     (if text = [] then (Inr [], m)
      else (case matcher_get_keywords db now m of
              (Inl e, m') \<Rightarrow> (Inl e, m')
            | (Inr keywords, m') \<Rightarrow>
                (Inr (find_matches_loop u (str_lower u text) [] keywords), m')))"

text \<open>
  The loop of \<open>calculate_keyword_score\<close>: \<open>keyword_counts\<close> is the dictionary of
  occurrence counts, \<open>total_score\<close> the running sum. \<open>//\<close> is floor division, as
  \<open>div\<close> on \<open>int\<close>.
\<close>

fun calculate_keyword_score_loop ::
  "(str \<rightharpoonup> nat) \<Rightarrow> int \<Rightarrow> keyword_row list \<Rightarrow> int" where
  "calculate_keyword_score_loop keyword_counts total_score [] = total_score"
| "calculate_keyword_score_loop keyword_counts total_score ((k, c, w) # matches) =
     (let n = (case keyword_counts k of None \<Rightarrow> 0 | Some i \<Rightarrow> i) + 1;
          keyword_counts' = keyword_counts(k \<mapsto> n)
      in if n = 1 then calculate_keyword_score_loop keyword_counts' (total_score + w) matches
         else if n = 2 then calculate_keyword_score_loop keyword_counts' (total_score + w div 2) matches
         else calculate_keyword_score_loop keyword_counts' total_score matches)"

definition calculate_keyword_score :: "keyword_row list \<Rightarrow> int" where
  "calculate_keyword_score matches =
     (if matches = [] then 0 else calculate_keyword_score_loop Map.empty 0 matches)"

section \<open>PostScorer (scorer.py)\<close>

text \<open>
  \<open>list(set(all_matches))\<close> lists the distinct tuples in the iteration order of a
  hash set, which the language does not fix. The order is the parameter
  \<open>list_of_set\<close>; \<open>set_listing\<close> says what every such order satisfies. One clock
  reading \<open>now\<close> stands for the readings taken during one call.
\<close>

definition set_listing :: "('a list \<Rightarrow> 'a list) \<Rightarrow> bool" where
  "set_listing list_of_set = (\<forall>xs. distinct (list_of_set xs) \<and> set (list_of_set xs) = set xs)"

definition score_post ::
  "Unicode \<Rightarrow> ScoringConfig \<Rightarrow> (keyword_row list \<Rightarrow> keyword_row list) \<Rightarrow> Database \<Rightarrow> int
     \<Rightarrow> KeywordMatcher \<Rightarrow> Post \<Rightarrow> (exn + ScoringResult) \<times> KeywordMatcher" where
  "score_post u cfg list_of_set db now m p =
     (case find_matches u db now m (title p) of
        (Inl e, m1) \<Rightarrow> (Inl e, m1)
      | (Inr title_matches, m1) \<Rightarrow>
          (case find_matches u db now m1 (content p) of
             (Inl e, m2) \<Rightarrow> (Inl e, m2)
           | (Inr content_matches, m2) \<Rightarrow>
               (let all_matches = title_matches @ content_matches;
                    unique_matches = list_of_set all_matches;
                    kw_score = calculate_keyword_score unique_matches;
                    bonus = (if is_recent now p then recent_post_bonus cfg else 0);
                    penalty = (if has_external_links p then external_link_penalty cfg else 0);
                    final = kw_score + bonus + penalty;
                    p' = p\<lparr>keyword_matches := map fst unique_matches, score := final\<rparr>
                in (Inr \<lparr>post = p', keyword_score = kw_score, time_bonus = bonus,
                          link_penalty = penalty, final_score = final,
                          matched_keywords = map fst unique_matches\<rparr>, m2))))"

text \<open>
  The loop of \<open>score_posts\<close>: \<open>except Exception\<close> logs and goes on with the next
  post. \<open>results.sort(key=..., reverse=True)\<close> is a stable sort: results with equal
  \<open>final_score\<close> keep their order, as \<open>sort_key\<close> on the negated score does.
\<close>

fun score_posts_loop ::
  "Unicode \<Rightarrow> ScoringConfig \<Rightarrow> (keyword_row list \<Rightarrow> keyword_row list) \<Rightarrow> Database \<Rightarrow> int
     \<Rightarrow> KeywordMatcher \<Rightarrow> ScoringResult list \<Rightarrow> Post list
     \<Rightarrow> ScoringResult list \<times> KeywordMatcher" where
  "score_posts_loop u cfg list_of_set db now m results [] = (results, m)"
| "score_posts_loop u cfg list_of_set db now m results (p # ps) =
     (case score_post u cfg list_of_set db now m p of
        (Inr r, m') \<Rightarrow> score_posts_loop u cfg list_of_set db now m' (results @ [r]) ps
      | (Inl e, m') \<Rightarrow> score_posts_loop u cfg list_of_set db now m' results ps)"

definition score_posts ::
  "Unicode \<Rightarrow> ScoringConfig \<Rightarrow> (keyword_row list \<Rightarrow> keyword_row list) \<Rightarrow> Database \<Rightarrow> int
     \<Rightarrow> KeywordMatcher \<Rightarrow> Post list \<Rightarrow> ScoringResult list \<times> KeywordMatcher" where
  "score_posts u cfg list_of_set db now m posts =
     (case score_posts_loop u cfg list_of_set db now m [] posts of
        (results, m') \<Rightarrow> (sort_key (\<lambda>r. - final_score r) results, m'))"

section \<open>PostFilter (scorer.py)\<close>

text \<open>The dedup key of a post: \<open>(post.platform.value, post.post_id)\<close>.\<close>

definition post_key :: "Post \<Rightarrow> str \<times> str" where
  "post_key p = (platform_value (platform p), post_id p)"

text \<open>
  The \<open>for\<close> loop of \<open>filter_duplicates\<close>, with its two local variables: the set
  \<open>seen\<close> of keys met so far and the list \<open>filtered\<close> of posts kept so far.
\<close>

fun filter_duplicates_loop ::
  "(str \<times> str) set \<Rightarrow> Post list \<Rightarrow> Post list \<Rightarrow> Post list" where
  "filter_duplicates_loop seen filtered [] = filtered"
| "filter_duplicates_loop seen filtered (p # ps) =
     (if post_key p \<notin> seen
      then filter_duplicates_loop (insert (post_key p) seen) (filtered @ [p]) ps
      else filter_duplicates_loop seen filtered ps)"

definition filter_duplicates :: "Post list \<Rightarrow> Post list" where
  "filter_duplicates posts = filter_duplicates_loop {} [] posts"

fun filter_processed_loop :: "Database \<Rightarrow> Post list \<Rightarrow> Post list \<Rightarrow> exn + Post list" where
  "filter_processed_loop db filtered [] = Inr filtered"
| "filter_processed_loop db filtered (p # ps) =
     (case is_post_processed db (platform_value (platform p)) (post_id p) of
        Inl e \<Rightarrow> Inl e
      | Inr processed \<Rightarrow>
          (if \<not> processed then filter_processed_loop db (filtered @ [p]) ps
           else filter_processed_loop db filtered ps))"

definition filter_processed :: "Database \<Rightarrow> Post list \<Rightarrow> exn + Post list" where
  "filter_processed db posts = filter_processed_loop db [] posts"

text \<open>
  \<open>timedelta(hours=max_age_hours)\<close> in microseconds. It raises \<open>OverflowError\<close> when
  the magnitude of its days exceeds 999999999: the hours it accepts are those from
  \<open>- 23999999976\<close> to \<open>23999999999\<close>.
\<close>

definition timedelta_hours :: "int \<Rightarrow> exn + int" where
  "timedelta_hours hours =
     (if - 23999999976 \<le> hours \<and> hours \<le> 23999999999 then Inr (hours * 3600000000)
      else Inl Other_Exception)"

text \<open>
  A \<open>datetime\<close> minus a \<open>timedelta\<close> raises \<open>OverflowError\<close> when the result is no
  \<open>datetime\<close>.
\<close>

definition datetime_minus :: "int \<Rightarrow> int \<Rightarrow> exn + int" where
  "datetime_minus t delta =
     (if datetime_min \<le> t - delta \<and> t - delta \<le> datetime_max then Inr (t - delta)
      else Inl Other_Exception)"

text \<open>
  \<open>filter_by_age\<close>: the cutoff \<open>datetime.now() - timedelta(hours=max_age_hours)\<close> is
  computed before the loop, which keeps the posts with
  \<open>post.timestamp >= cutoff_time\<close>.
\<close>

definition filter_by_age :: "int \<Rightarrow> Post list \<Rightarrow> int \<Rightarrow> exn + Post list" where
  "filter_by_age now posts max_age_hours =
     (case timedelta_hours max_age_hours of
        Inl e \<Rightarrow> Inl e
      | Inr delta \<Rightarrow>
          (case datetime_minus now delta of
             Inl e \<Rightarrow> Inl e
           | Inr cutoff_time \<Rightarrow> Inr (filter (\<lambda>p. timestamp p \<ge> cutoff_time) posts)))"

definition filter_by_score :: "ScoringResult list \<Rightarrow> int \<Rightarrow> ScoringResult list" where
  "filter_by_score scoring_results min_score =
     filter (\<lambda>r. final_score r \<ge> min_score) scoring_results"

text \<open>The slice \<open>xs[:n]\<close>: a negative \<open>n\<close> counts from the end of the list.\<close>

definition slice_to :: "'a list \<Rightarrow> int \<Rightarrow> 'a list" where
  "slice_to xs n = (if 0 \<le> n then take (nat n) xs else take (nat (int (length xs) + n)) xs)"

definition filter_top_posts :: "ScoringConfig \<Rightarrow> ScoringResult list \<Rightarrow> ScoringResult list" where
  "filter_top_posts cfg scoring_results =
     (let max_posts = max_posts_per_run cfg
      in if int (length scoring_results) \<le> max_posts then scoring_results
         else slice_to scoring_results max_posts)"

section \<open>ScoringEngine.process_posts (scorer.py)\<close>

text \<open>
  The value \<open>process_posts\<close> returns, with the matcher after the call.
  \<open>filter_by_age\<close> and \<open>filter_by_score\<close> are called with their defaults, 24 hours
  and a minimum score of 1. An exception of a filter leaves \<open>process_posts\<close>. The
  last step, \<open>_save_posts_to_db\<close>, catches every exception and returns nothing: it
  does not change the returned list and is left out. As in \<open>score_post\<close>, one clock
  reading \<open>now\<close> stands for the readings of the run, and the database is the same for
  all its reads.
\<close>

definition process_posts ::
  "Unicode \<Rightarrow> ScoringConfig \<Rightarrow> (keyword_row list \<Rightarrow> keyword_row list) \<Rightarrow> Database \<Rightarrow> int
     \<Rightarrow> KeywordMatcher \<Rightarrow> Post list \<Rightarrow> (exn + ScoringResult list) \<times> KeywordMatcher" where
  "process_posts u cfg list_of_set db now m posts =
     (case filter_processed db (filter_duplicates posts) of
        Inl e \<Rightarrow> (Inl e, m)
      | Inr unprocessed \<Rightarrow>
          (case filter_by_age now unprocessed 24 of
             Inl e \<Rightarrow> (Inl e, m)
           | Inr filtered_posts \<Rightarrow>
               (if filtered_posts = [] then (Inr [], m)
                else (case score_posts u cfg list_of_set db now m filtered_posts of
                        (scoring_results, m') \<Rightarrow>
                          (Inr (filter_top_posts cfg (filter_by_score scoring_results 1)), m')))))"

section \<open>Auxiliary functions of the proofs\<close>

text \<open>
  The loop of \<open>filter_duplicates\<close> without its accumulator: the posts it appends, in
  order.
\<close>

primrec first_seen :: "(str \<times> str) set \<Rightarrow> Post list \<Rightarrow> Post list" where
  "first_seen seen [] = []"
| "first_seen seen (p # ps) =
     (if post_key p \<notin> seen then p # first_seen (insert (post_key p) seen) ps
      else first_seen seen ps)"

text \<open>
  For \<open>calculate_keyword_score\<close>: the count a key has in the dictionary (0 when
  absent), the weights of the entries of one keyword text in list order, and what
  further entries with weights \<open>ws\<close> add for a keyword already counted \<open>n\<close> times.
\<close>

definition count_in :: "(str \<rightharpoonup> nat) \<Rightarrow> str \<Rightarrow> nat" where
  "count_in kc k = (case kc k of None \<Rightarrow> 0 | Some i \<Rightarrow> i)"

definition weights_of :: "str \<Rightarrow> keyword_row list \<Rightarrow> int list" where
  "weights_of k ms = map (\<lambda>(k', c, w). w) (filter (\<lambda>m. fst m = k) ms)"

definition occurrences :: "str \<Rightarrow> keyword_row list \<Rightarrow> nat" where
  "occurrences k ms = length (filter (\<lambda>m. fst m = k) ms)"

fun gain :: "nat \<Rightarrow> int list \<Rightarrow> int" where
  "gain 0 [] = 0"
| "gain 0 [w] = w"
| "gain 0 (w # w' # ws) = w + w' div 2"
| "gain (Suc 0) [] = 0"
| "gain (Suc 0) (w # ws) = w div 2"
| "gain (Suc (Suc n)) ws = 0"

text \<open>
  The contribution of a keyword of weight \<open>w\<close> that occurs \<open>n\<close> times, in the words
  of the specification: \<open>w\<close> for one occurrence, \<open>w + floor(w/2)\<close> for two, and
  nothing more from the third occurrence on.
\<close>

definition contribution :: "int \<Rightarrow> nat \<Rightarrow> int" where
  "contribution w n =
     (if n = 1 then w else if n = 2 then w + w div 2
      else if n \<ge> 3 then w + w div 2 + 0 else 0)"

text \<open>The weight of the first entry of a keyword text in a match list.\<close>

definition weight_in :: "keyword_row list \<Rightarrow> str \<Rightarrow> int" where
  "weight_in ms k = (case find (\<lambda>m. fst m = k) ms of Some (k', c, w) \<Rightarrow> w | None \<Rightarrow> 0)"

text \<open>
  For \<open>find_matches\<close>, the whole-word occurrence of the specification, stated on
  positions and without the regular expression: \<open>kw\<close> occurs in \<open>t\<close> as a whole word
  at position \<open>i\<close> when the characters of \<open>t\<close> from \<open>i\<close> on start with \<open>kw\<close> and
  neither the character before the occurrence nor the character after it is a word
  character, so that the occurrence is not part of a larger token.
  \<open>whole_word_positions\<close> lists these positions.
\<close>

definition whole_word_at :: "Unicode \<Rightarrow> str \<Rightarrow> str \<Rightarrow> nat \<Rightarrow> bool" where
  "whole_word_at u kw t i =
     (take (length kw) (drop i t) = kw
      \<and> (i = 0 \<or> \<not> word_char u (t ! (i - 1)))
      \<and> (length t \<le> i + length kw \<or> \<not> word_char u (t ! (i + length kw))))"

definition whole_word_positions :: "Unicode \<Rightarrow> str \<Rightarrow> str \<Rightarrow> nat list" where
  "whole_word_positions u kw t = filter (whole_word_at u kw t) [0..<Suc (length t)]"

text \<open>
  The same on a split \<open>front @ kw @ rear\<close> of the text: no word character stands
  next to the keyword (\<open>not_inside_token\<close>). \<open>token_aligned\<close> is what the pattern
  tests instead, a word boundary on both sides of the keyword.
\<close>

definition not_inside_token :: "Unicode \<Rightarrow> str \<Rightarrow> str \<Rightarrow> bool" where
  "not_inside_token u front rear =
     ((front = [] \<or> \<not> word_char u (last front)) \<and> (rear = [] \<or> \<not> word_char u (hd rear)))"

definition last_char :: "codepoint option \<Rightarrow> str \<Rightarrow> codepoint option" where
  "last_char prev xs = (if xs = [] then prev else Some (last xs))"

definition token_aligned :: "Unicode \<Rightarrow> str \<Rightarrow> str \<Rightarrow> str \<Rightarrow> bool" where
  "token_aligned u front kw rear =
     (boundary u (last_char None front) (first_char (kw @ rear))
      \<and> boundary u (last_char None (front @ kw)) (first_char rear))"

text \<open>
  For the keyword store: two orders on rows. \<open>weight_then_text\<close> is the order of the
  specification, weight descending and ties broken by keyword text ascending;
  \<open>category_weight_text\<close> puts the category first, ascending.
\<close>

definition weight_then_text :: "keyword_row \<Rightarrow> keyword_row \<Rightarrow> bool" where
  "weight_then_text a b =
     (case a of (k, c, w) \<Rightarrow> case b of (k', c', w') \<Rightarrow> w > w' \<or> (w = w' \<and> k \<le> k'))"

definition category_weight_text :: "keyword_row \<Rightarrow> keyword_row \<Rightarrow> bool" where
  "category_weight_text a b =
     (case a of (k, c, w) \<Rightarrow> case b of (k', c', w') \<Rightarrow>
        c < c' \<or> (c = c' \<and> (w > w' \<or> (w = w' \<and> k \<le> k'))))"

text \<open>A clock reading for which the cutoff of 24 hours is a \<open>datetime\<close>.\<close>

definition day_before_is_datetime :: "int \<Rightarrow> bool" where
  "day_before_is_datetime now =
     (datetime_min \<le> now - 86400000000 \<and> now - 86400000000 \<le> datetime_max)"

section \<open>Example data\<close>

text \<open>
  The examples are ASCII texts. \<open>ascii_tables\<close> gives the two Unicode tables on the
  code points below 128, as Python has them: letters, digits and the underscore are
  word characters, and \<open>A\<close> to \<open>Z\<close> are lowered by adding 32. No example holds
  another code point.
\<close>

definition ascii_tables :: Unicode where
  "ascii_tables =
     \<lparr>word_char = (\<lambda>c. (97 \<le> c \<and> c \<le> 122) \<or> (65 \<le> c \<and> c \<le> 90)
                        \<or> (48 \<le> c \<and> c \<le> 57) \<or> c = 95),
      str_lower = map (\<lambda>c. if 65 \<le> c \<and> c \<le> 90 then c + 32 else c)\<rparr>"

definition example_post :: "Platform \<Rightarrow> string \<Rightarrow> string \<Rightarrow> string \<Rightarrow> int \<Rightarrow> bool \<Rightarrow> Post" where
  "example_post pl i t c ts links =
     \<lparr>platform = pl, post_id = ustr i, title = ustr t, content = ustr c,
      author = ustr ''woodworker'', url = ustr ''https://example.org/post'', timestamp = ts,
      score = 0, keyword_matches = [], has_external_links = links\<rparr>"

definition example_row :: "string \<Rightarrow> string \<Rightarrow> int \<Rightarrow> keyword_row" where
  "example_row k c w = (ustr k, ustr c, w)"

definition example_config :: ScoringConfig where
  "example_config =
     \<lparr>keyword_match = 5, recent_post_bonus = 2, external_link_penalty = - 1,
      max_posts_per_run = 20\<rparr>"

definition example_db :: Database where
  "example_db =
     \<lparr>keywords_table =
        [example_row ''table saw'' ''high_value'' 8, example_row ''saw'' ''tools'' 5,
         example_row ''safety'' ''general'' 5],
      posts_table = [(ustr ''reddit'', ustr ''old'')], fault = None\<rparr>"

text \<open>A store with one keyword that ends with a character that is no word character.\<close>

definition symbol_db :: Database where
  "symbol_db =
     \<lparr>keywords_table = [example_row ''c++'' ''custom'' 5], posts_table = [], fault = None\<rparr>"

definition new_matcher :: KeywordMatcher where
  "new_matcher = \<lparr>keyword_cache = None, cache_timestamp = None\<rparr>"

text \<open>
  A run at \<open>example_now\<close> (25 hours after the epoch) over seven posts: a repost of
  \<open>b\<close>, a post 25 hours old (\<open>o\<close>), a post already stored (\<open>old\<close>) and a post
  without keywords that carries links (\<open>l\<close>) among them.
\<close>

definition example_now :: int where
  "example_now = 90000000000"

definition example_posts :: "Post list" where
  "example_posts =
     [example_post REDDIT ''b'' ''Which saw blade?'' ''Need a new saw'' 89700000000 False,
      example_post LUMBERJOCKS ''c'' ''Workshop safety'' ''Goggles on'' 89700000000 False,
      example_post REDDIT ''a'' ''Table saw safety tips'' ''My table saw has no guard''
        89700000000 False,
      example_post REDDIT ''b'' ''Which saw blade? (repost)'' ''Need a new saw'' 89700000000 False,
      example_post REDDIT ''o'' ''Table saw for sale'' ''Old table saw'' 0 False,
      example_post REDDIT ''old'' ''Saw safety'' ''Seen before'' 89700000000 False,
      example_post FACEBOOK ''l'' ''Look at my shop'' ''Photos'' 80000000000 True]"

section \<open>Literals\<close>

lemma ustr_eq_iff [simp]: "ustr s = ustr t \<longleftrightarrow> s = t"
proof -
  have "inj (of_char :: char \<Rightarrow> nat)"
    by (rule injI) simp
  then have "inj (map (of_char :: char \<Rightarrow> nat))"
    by simp
  then show ?thesis
    unfolding ustr_def by (auto dest: injD)
qed

lemma ustr_Nil [simp]: "ustr s = [] \<longleftrightarrow> s = []"
  by (simp add: ustr_def)

lemma example_row_eq_iff [simp]:
  "example_row k c w = example_row k' c' w' \<longleftrightarrow> k = k' \<and> c = c' \<and> w = w'"
  by (simp add: example_row_def)

section \<open>filter_duplicates keeps the first post of every key\<close>

lemma filter_duplicates_loop_first_seen:
  "filter_duplicates_loop seen acc ps = acc @ first_seen seen ps"
  by (induction ps arbitrary: seen acc) auto

lemma first_seen_key_fresh: "p \<in> set (first_seen seen ps) \<Longrightarrow> post_key p \<notin> seen"
  by (induction ps arbitrary: seen) (auto split: if_splits)

lemma first_seen_subseq: "subseq (first_seen seen ps) ps"
  by (induction ps arbitrary: seen) auto

lemma first_seen_distinct_keys: "distinct (map post_key (first_seen seen ps))"
  by (induction ps arbitrary: seen) (auto dest: first_seen_key_fresh)

lemma first_seen_fixpoint:
  "distinct (map post_key ps) \<Longrightarrow> post_key ` set ps \<inter> seen = {} \<Longrightarrow> first_seen seen ps = ps"
  by (induction ps arbitrary: seen) auto

lemma first_seen_by_index:
  "first_seen seen ps =
     map (\<lambda>i. ps ! i)
       (filter (\<lambda>i. post_key (ps ! i) \<notin> seen \<union> post_key ` set (take i ps)) [0..<length ps])"
proof (induction ps arbitrary: seen)
  case Nil
  then show ?case by simp
next
  case (Cons a ps)
  have shift: "[0..<length (a # ps)] = 0 # map Suc [0..<length ps]"
    by (simp add: upt_conv_Cons map_Suc_upt del: upt_Suc)
  show ?case
    unfolding shift
    by (auto simp add: filter_map comp_def Cons.IH
          intro!: arg_cong[where f="map ((!) ps)"] filter_cong)
qed

text \<open>
  Claim C9. \<open>filter_duplicates\<close> returns, in the order of the input, exactly the posts
  at those positions \<open>i\<close> whose key \<open>(platform, post_id)\<close> does not occur at an earlier
  position: the first post of every key. The result is a subsequence of the input with
  pairwise different keys, and filtering it again changes nothing.
\<close>

theorem filter_duplicates_first_wins:
  "filter_duplicates ps =
     map (\<lambda>i. ps ! i) (filter (\<lambda>i. post_key (ps ! i) \<notin> post_key ` set (take i ps)) [0..<length ps])
   \<and> subseq (filter_duplicates ps) ps
   \<and> distinct (map post_key (filter_duplicates ps))
   \<and> filter_duplicates (filter_duplicates ps) = filter_duplicates ps"
proof -
  have fd: "filter_duplicates ps = first_seen {} ps"
    by (simp add: filter_duplicates_def filter_duplicates_loop_first_seen)
  have idem: "first_seen {} (first_seen {} ps) = first_seen {} ps"
    by (rule first_seen_fixpoint) (simp_all add: first_seen_distinct_keys)
  have by_index: "first_seen {} ps =
      map (\<lambda>i. ps ! i) (filter (\<lambda>i. post_key (ps ! i) \<notin> post_key ` set (take i ps)) [0..<length ps])"
    using first_seen_by_index[of "{}" ps] by simp
  have "subseq (first_seen {} ps) ps"
    by (rule first_seen_subseq)
  moreover have "distinct (map post_key (first_seen {} ps))"
    by (rule first_seen_distinct_keys)
  moreover have "filter_duplicates (first_seen {} ps) = first_seen {} ps"
    using idem by (simp add: filter_duplicates_def filter_duplicates_loop_first_seen)
  ultimately show ?thesis
    using by_index unfolding fd by blast
qed

theorem filter_duplicates_first_wins_witness:
  "filter_duplicates
     [example_post REDDIT ''1'' ''first'' [] 0 False,
      example_post FACEBOOK ''1'' ''other platform'' [] 0 False,
      example_post REDDIT ''1'' ''repost'' [] 0 False]
   = [example_post REDDIT ''1'' ''first'' [] 0 False,
      example_post FACEBOOK ''1'' ''other platform'' [] 0 False]
   \<and> filter_duplicates (filter_duplicates
     [example_post REDDIT ''1'' ''first'' [] 0 False,
      example_post FACEBOOK ''1'' ''other platform'' [] 0 False,
      example_post REDDIT ''1'' ''repost'' [] 0 False])
   = [example_post REDDIT ''1'' ''first'' [] 0 False,
      example_post FACEBOOK ''1'' ''other platform'' [] 0 False]"
  using filter_duplicates_first_wins
    [of "[example_post REDDIT ''1'' ''first'' [] 0 False,
          example_post FACEBOOK ''1'' ''other platform'' [] 0 False,
          example_post REDDIT ''1'' ''repost'' [] 0 False]"]
  by (simp add: filter_duplicates_def post_key_def example_post_def)

section \<open>calculate_keyword_score: diminishing returns and order independence\<close>

lemma gain_Nil: "gain c [] = 0"
  by (cases "(c, []::int list)" rule: gain.cases) auto

lemma gain_step:
  "gain c (w # ws) = (if c = 0 then w else if c = 1 then w div 2 else 0) + gain (Suc c) ws"
  by (cases "(c, ws)" rule: gain.cases) (auto simp: gain_Nil)

lemma weights_of_Cons:
  "weights_of k ((k', c, w) # ms) = (if k' = k then w # weights_of k ms else weights_of k ms)"
  by (simp add: weights_of_def)

text \<open>
  The loop, started with any dictionary and any running sum, adds for every keyword
  text what its entries gain on top of the count already in the dictionary.
\<close>

lemma calculate_keyword_score_loop_sum:
  "finite K \<Longrightarrow> fst ` set ms \<subseteq> K \<Longrightarrow>
   calculate_keyword_score_loop kc tot ms
     = tot + (\<Sum>k\<in>K. gain (count_in kc k) (weights_of k ms))"
proof (induction ms arbitrary: kc tot)
  case Nil
  then show ?case by (simp add: weights_of_def gain_Nil)
next
  case (Cons m ms)
  obtain k c w where m: "m = (k, c, w)" by (cases m) auto
  let ?kc = "kc(k \<mapsto> count_in kc k + 1)"
  let ?d = "if count_in kc k = 0 then w else if count_in kc k = 1 then w div 2 else 0"
  have kK: "k \<in> K" and sub: "fst ` set ms \<subseteq> K" using Cons.prems m by auto
  have loop: "calculate_keyword_score_loop kc tot (m # ms)
      = calculate_keyword_score_loop ?kc (tot + ?d) ms"
    by (simp add: m count_in_def Let_def)
  have IH: "calculate_keyword_score_loop ?kc (tot + ?d) ms
      = tot + ?d + (\<Sum>k'\<in>K. gain (count_in ?kc k') (weights_of k' ms))"
    by (rule Cons.IH[OF Cons.prems(1) sub])
  have rest: "(\<Sum>k'\<in>K - {k}. gain (count_in ?kc k') (weights_of k' ms))
      = (\<Sum>k'\<in>K - {k}. gain (count_in kc k') (weights_of k' (m # ms)))"
    by (rule sum.cong) (auto simp: m weights_of_Cons count_in_def)
  have here: "?d + gain (count_in ?kc k) (weights_of k ms)
      = gain (count_in kc k) (weights_of k (m # ms))"
    by (simp add: m weights_of_Cons gain_step count_in_def)
  have "(\<Sum>k'\<in>K. gain (count_in kc k') (weights_of k' (m # ms)))
      = gain (count_in kc k) (weights_of k (m # ms))
        + (\<Sum>k'\<in>K - {k}. gain (count_in kc k') (weights_of k' (m # ms)))"
    by (rule sum.remove[OF Cons.prems(1) kK])
  moreover have "(\<Sum>k'\<in>K. gain (count_in ?kc k') (weights_of k' ms))
      = gain (count_in ?kc k) (weights_of k ms)
        + (\<Sum>k'\<in>K - {k}. gain (count_in ?kc k') (weights_of k' ms))"
    by (rule sum.remove[OF Cons.prems(1) kK])
  ultimately show ?case
    using loop IH rest here by simp
qed

text \<open>
  For every match list: the score is the sum, over the distinct keyword texts, of the
  weight of the first entry of that text plus half the weight of its second entry
  (rounded down).
\<close>

lemma calculate_keyword_score_sum:
  "calculate_keyword_score ms = (\<Sum>k\<in>fst ` set ms. gain 0 (weights_of k ms))"
proof (cases "ms = []")
  case True
  then show ?thesis by (simp add: calculate_keyword_score_def)
next
  case False
  have "calculate_keyword_score_loop Map.empty 0 ms
      = 0 + (\<Sum>k\<in>fst ` set ms. gain (count_in Map.empty k) (weights_of k ms))"
    by (rule calculate_keyword_score_loop_sum) auto
  with False show ?thesis
    by (simp add: calculate_keyword_score_def count_in_def)
qed

lemma gain_replicate: "gain 0 (replicate n w) = contribution w n"
proof -
  consider "n = 0" | "n = 1" | m where "n = Suc (Suc m)"
    by (metis One_nat_def not0_implies_Suc)
  then show ?thesis
    by cases (auto simp: contribution_def)
qed

lemma weights_of_replicate:
  "\<forall>(k, c, w)\<in>set ms. w = wt k \<Longrightarrow> weights_of k ms = replicate (occurrences k ms) (wt k)"
  by (induction ms) (auto simp: weights_of_def occurrences_def)

lemma occurrences_mset: "mset ms' = mset ms \<Longrightarrow> occurrences k ms' = occurrences k ms"
  unfolding occurrences_def by (metis mset_filter size_mset)

lemma weight_in_consistent:
  assumes "\<forall>(k, c, w)\<in>set ms. \<forall>(k', c', w')\<in>set ms. k = k' \<longrightarrow> w = w'"
  shows "\<forall>(k, c, w)\<in>set ms. w = weight_in ms k"
proof (clarify)
  fix k c w assume in_ms: "(k, c, w) \<in> set ms"
  then obtain m where f: "find (\<lambda>m. fst m = k) ms = Some m"
    by (cases "find (\<lambda>m. fst m = k) ms") (auto simp: find_None_iff)
  obtain k' c' w' where m: "m = (k', c', w')" by (cases m) auto
  from f have "m \<in> set ms" "fst m = k"
    by (auto simp: find_Some_iff)
  with assms in_ms m have "w = w'" by fastforce
  with f m show "w = weight_in ms k" by (simp add: weight_in_def)
qed

text \<open>
  Claim C3. When every entry of a match list carries the weight \<open>wt k\<close> of its keyword
  text \<open>k\<close>, \<open>calculate_keyword_score\<close> is the sum over the distinct keyword texts of
  the keyword's contribution: \<open>w\<close> for one occurrence, \<open>w + w div 2\<close> for two, and the
  same \<open>w + w div 2\<close> for three or more occurrences.
\<close>

theorem calculate_keyword_score_diminishing_returns:
  assumes "\<forall>(k, c, w)\<in>set ms. w = wt k"
  shows "calculate_keyword_score ms
           = (\<Sum>k\<in>fst ` set ms. contribution (wt k) (occurrences k ms))"
  by (simp add: calculate_keyword_score_sum weights_of_replicate[OF assms] gain_replicate)

theorem calculate_keyword_score_diminishing_returns_witness:
  "calculate_keyword_score
     [example_row ''router'' ''high_value'' 8, example_row ''sanding'' ''medium_value'' 5,
      example_row ''router'' ''high_value'' 8, example_row ''router'' ''high_value'' 8]
   = contribution 8 3 + contribution 5 1
   \<and> contribution 8 3 = 12 \<and> contribution 5 1 = 5"
proof -
  let ?ms = "[example_row ''router'' ''high_value'' 8, example_row ''sanding'' ''medium_value'' 5,
              example_row ''router'' ''high_value'' 8, example_row ''router'' ''high_value'' 8]"
  let ?wt = "\<lambda>k. if k = ustr ''router'' then 8 else (5::int)"
  have same: "\<forall>(k, c, w)\<in>set ?ms. w = ?wt k"
    by (simp add: example_row_def)
  have keys: "fst ` set ?ms = {ustr ''router'', ustr ''sanding''}"
    by (auto simp: example_row_def)
  have "calculate_keyword_score ?ms
      = (\<Sum>k\<in>{ustr ''router'', ustr ''sanding''}. contribution (?wt k) (occurrences k ?ms))"
    using calculate_keyword_score_diminishing_returns[OF same] unfolding keys .
  also have "\<dots> = contribution 8 3 + contribution 5 1"
    by (simp add: occurrences_def example_row_def eval_nat_numeral)
  finally show ?thesis
    by (simp add: contribution_def)
qed

text \<open>
  Claim C6. For a match list in which entries of the same keyword text carry the same
  weight, every permutation of the list has the same score.
\<close>

theorem calculate_keyword_score_permutation:
  assumes perm: "mset ms' = mset ms"
    and same_weight: "\<forall>(k, c, w)\<in>set ms. \<forall>(k', c', w')\<in>set ms. k = k' \<longrightarrow> w = w'"
  shows "calculate_keyword_score ms' = calculate_keyword_score ms"
proof -
  have set_eq: "set ms' = set ms" using perm by (rule mset_eq_setD)
  have c1: "\<forall>(k, c, w)\<in>set ms. w = weight_in ms k"
    by (rule weight_in_consistent[OF same_weight])
  then have c2: "\<forall>(k, c, w)\<in>set ms'. w = weight_in ms k"
    by (simp add: set_eq)
  show ?thesis
    by (simp add: calculate_keyword_score_sum weights_of_replicate[OF c1]
          weights_of_replicate[OF c2] set_eq occurrences_mset[OF perm])
qed

theorem calculate_keyword_score_permutation_witness:
  "calculate_keyword_score
     [example_row ''router'' ''high_value'' 8, example_row ''router'' ''high_value'' 8,
      example_row ''sanding'' ''medium_value'' 5]
   = calculate_keyword_score
     [example_row ''router'' ''high_value'' 8, example_row ''sanding'' ''medium_value'' 5,
      example_row ''router'' ''high_value'' 8]"
  using calculate_keyword_score_permutation
    [of "[example_row ''router'' ''high_value'' 8, example_row ''router'' ''high_value'' 8,
          example_row ''sanding'' ''medium_value'' 5]"
        "[example_row ''router'' ''high_value'' 8, example_row ''sanding'' ''medium_value'' 5,
          example_row ''router'' ''high_value'' 8]"]
  by (simp add: example_row_def)

section \<open>find_matches: the pattern and whole-word occurrences\<close>

lemma match_here_iff:
  "match_here u prev kw rest \<longleftrightarrow>
     (\<exists>rear. rest = kw @ rear \<and> boundary u prev (first_char (kw @ rear))
        \<and> boundary u (last_char prev kw) (first_char rear))"
proof
  assume mh: "match_here u prev kw rest"
  then have "rest = kw @ drop (length kw) rest"
    unfolding match_here_def by (metis append_take_drop_id)
  with mh show "\<exists>rear. rest = kw @ rear \<and> boundary u prev (first_char (kw @ rear))
        \<and> boundary u (last_char prev kw) (first_char rear)"
    unfolding match_here_def last_char_def by metis
next
  assume "\<exists>rear. rest = kw @ rear \<and> boundary u prev (first_char (kw @ rear))
        \<and> boundary u (last_char prev kw) (first_char rear)"
  then show "match_here u prev kw rest"
    by (auto simp: match_here_def last_char_def)
qed

text \<open>
  The search succeeds exactly when the text splits into \<open>front @ kw @ rear\<close> with a
  word boundary before and after \<open>kw\<close>.
\<close>

lemma search_from_iff:
  "search_from u prev kw rest \<longleftrightarrow>
     (\<exists>front rear. rest = front @ kw @ rear
        \<and> boundary u (last_char prev front) (first_char (kw @ rear))
        \<and> boundary u (last_char prev (front @ kw)) (first_char rear))"
proof (induction rest arbitrary: prev)
  case Nil
  show ?case
    by (auto simp: match_here_iff last_char_def)
next
  case (Cons c cs)
  have now: "match_here u prev kw (c # cs) \<longleftrightarrow>
     (\<exists>rear. c # cs = [] @ kw @ rear
        \<and> boundary u (last_char prev []) (first_char (kw @ rear))
        \<and> boundary u (last_char prev ([] @ kw)) (first_char rear))"
    by (simp add: match_here_iff last_char_def)
  have later: "search_from u (Some c) kw cs \<longleftrightarrow>
     (\<exists>front rear. c # cs = (c # front) @ kw @ rear
        \<and> boundary u (last_char prev (c # front)) (first_char (kw @ rear))
        \<and> boundary u (last_char prev ((c # front) @ kw)) (first_char rear))"
    by (simp add: Cons.IH last_char_def)
  show ?case (is "?L \<longleftrightarrow> ?R")
  proof
    assume ?L
    then consider "match_here u prev kw (c # cs)" | "search_from u (Some c) kw cs" by auto
    then show ?R
    proof cases
      case 1
      with now show ?thesis by blast
    next
      case 2
      with later show ?thesis by blast
    qed
  next
    assume ?R
    then obtain front rear where R: "c # cs = front @ kw @ rear"
        "boundary u (last_char prev front) (first_char (kw @ rear))"
        "boundary u (last_char prev (front @ kw)) (first_char rear)" by blast
    show ?L
    proof (cases front)
      case Nil
      with R now have "match_here u prev kw (c # cs)" by blast
      then show ?thesis by simp
    next
      case (Cons a front')
      with R have "a = c" by simp
      with R Cons later have "search_from u (Some c) kw cs" by blast
      then show ?thesis by simp
    qed
  qed
qed

lemma find_matches_loop_filter:
  "find_matches_loop u t acc kws = acc @ filter (\<lambda>(k, c, w). re_search_word u k t) kws"
  by (induction kws arbitrary: acc) auto

text \<open>
  For a keyword that starts and ends with a word character, a word boundary on both
  sides says that no word character stands next to it.
\<close>

lemma token_aligned_word_edges:
  assumes "k \<noteq> []" "word_char u (hd k)" "word_char u (last k)"
  shows "token_aligned u front k rear \<longleftrightarrow> not_inside_token u front rear"
proof -
  have f: "first_char (k @ rear) = Some (hd k)" using assms(1) by (cases k) auto
  have l: "last_char None (front @ k) = Some (last k)" using assms(1) by (simp add: last_char_def)
  have p: "word_at u (last_char None front) \<longleftrightarrow> front \<noteq> [] \<and> word_char u (last front)"
    by (simp add: last_char_def)
  have q: "word_at u (first_char rear) \<longleftrightarrow> rear \<noteq> [] \<and> word_char u (hd rear)"
    by (cases rear) auto
  show ?thesis
    unfolding token_aligned_def not_inside_token_def boundary_def f l
    using assms p q by auto
qed

text \<open>
  The positions of the whole-word occurrences and the splits of the text with no word
  character next to the keyword are the same thing.
\<close>

lemma whole_word_at_split:
  "whole_word_at u k (front @ k @ rear) (length front) \<longleftrightarrow> not_inside_token u front rear"
proof -
  have before: "front \<noteq> [] \<Longrightarrow> (front @ k @ rear) ! (length front - 1) = last front"
    by (simp add: nth_append last_conv_nth)
  have after: "rear \<noteq> [] \<Longrightarrow> (front @ k @ rear) ! (length front + length k) = hd rear"
    by (simp add: nth_append hd_conv_nth)
  show ?thesis
    unfolding whole_word_at_def not_inside_token_def
    using before after by (cases "front = []"; cases "rear = []") auto
qed

lemma whole_word_positions_iff:
  "whole_word_positions u k t \<noteq> [] \<longleftrightarrow>
     (\<exists>front rear. t = front @ k @ rear \<and> not_inside_token u front rear)"
proof
  assume "whole_word_positions u k t \<noteq> []"
  then obtain i where i: "i \<le> length t" "whole_word_at u k t i"
    unfolding whole_word_positions_def
    by (metis atLeastLessThan_iff filter_False less_Suc_eq_le set_upt)
  from i(2) have "drop i t = k @ drop (length k) (drop i t)"
    unfolding whole_word_at_def by (metis append_take_drop_id)
  then have split: "t = take i t @ k @ drop (i + length k) t"
    by (metis add.commute append_take_drop_id drop_drop)
  have len: "length (take i t) = i"
    using i(1) by simp
  from i(2) split len have "not_inside_token u (take i t) (drop (i + length k) t)"
    using whole_word_at_split[of u k "take i t" "drop (i + length k) t"] by simp
  with split show "\<exists>front rear. t = front @ k @ rear \<and> not_inside_token u front rear"
    by blast
next
  assume "\<exists>front rear. t = front @ k @ rear \<and> not_inside_token u front rear"
  then obtain front rear where t: "t = front @ k @ rear" and free: "not_inside_token u front rear"
    by blast
  have "whole_word_at u k t (length front)"
    unfolding t using free by (simp add: whole_word_at_split)
  moreover have "length front < Suc (length t)"
    unfolding t by simp
  ultimately have "length front \<in> set (whole_word_positions u k t)"
    unfolding whole_word_positions_def by (simp del: upt_Suc)
  then show "whole_word_positions u k t \<noteq> []"
    by auto
qed

text \<open>
  Where the pattern is right: for a keyword that starts and ends with a word
  character, the search succeeds exactly when the keyword occurs as a whole word.
\<close>

lemma re_search_word_edges:
  assumes "k \<noteq> []" "word_char u (hd k)" "word_char u (last k)"
  shows "re_search_word u k t \<longleftrightarrow> whole_word_positions u k t \<noteq> []"
proof -
  have "re_search_word u k t \<longleftrightarrow> (\<exists>front rear. t = front @ k @ rear \<and> token_aligned u front k rear)"
    unfolding re_search_word_def search_from_iff token_aligned_def by simp
  also have "\<dots> \<longleftrightarrow> (\<exists>front rear. t = front @ k @ rear \<and> not_inside_token u front rear)"
    using token_aligned_word_edges[OF assms] by simp
  finally show ?thesis
    by (simp add: whole_word_positions_iff)
qed

lemma occurrences_filter_key:
  "occurrences k (filter (\<lambda>(k', c, w). P k') kws) = (if P k then occurrences k kws else 0)"
  by (induction kws) (auto simp: occurrences_def)

lemma find_matches_filter:
  assumes "text \<noteq> []" and "fst (matcher_get_keywords db now m) = Inr keywords"
  shows "fst (find_matches u db now m text)
           = Inr (filter (\<lambda>(k, c, w). re_search_word u k (str_lower u text)) keywords)"
  using assms
  by (auto simp: find_matches_def find_matches_loop_filter split: prod.splits sum.splits)

text \<open>
  Every match reported for a keyword that starts and ends with a word character is a
  whole-word occurrence in the lower-cased text.
\<close>

lemma find_matches_word_edged_keyword:
  assumes "fst (find_matches u db now m text) = Inr matches" and "(k, c, w) \<in> set matches"
    and "k \<noteq> []" "word_char u (hd k)" "word_char u (last k)"
  shows "whole_word_positions u k (str_lower u text) \<noteq> []"
proof -
  from assms(1,2) have "text \<noteq> []"
    by (auto simp: find_matches_def)
  with assms(1) obtain kws where
      "matches = filter (\<lambda>(k, c, w). re_search_word u k (str_lower u text)) kws"
    by (auto simp: find_matches_def find_matches_loop_filter split: prod.splits sum.splits)
  with assms(2) have "re_search_word u k (str_lower u text)" by auto
  then show ?thesis
    using re_search_word_edges[OF assms(3-5)] by simp
qed

text \<open>
  Claim C5: for every keyword set and every text, \<open>find_matches\<close> reports no keyword
  that occurs in the text only as part of a larger token; every reported match is a
  whole-word occurrence in the lower-cased text. The code breaks the claim for a
  keyword that starts or ends with a character that is no word character: there
  \<open>\b\<close> asks for a word character next to the keyword. With the stored keyword
  \<open>c++\<close>, \<open>find_matches\<close> reports the keyword in the text \<open>c++x\<close>, where it has no
  whole-word occurrence, and reports nothing in \<open>I use C++ daily\<close>, where it occurs
  as a whole word at position 6.
\<close>

theorem find_matches_non_word_edge:
  "fst (find_matches ascii_tables symbol_db 0 new_matcher (ustr ''c++x''))
     = Inr [example_row ''c++'' ''custom'' 5]
   \<and> whole_word_positions ascii_tables (ustr ''c++'') (str_lower ascii_tables (ustr ''c++x'')) = []
   \<and> fst (find_matches ascii_tables symbol_db 0 new_matcher (ustr ''I use C++ daily'')) = Inr []
   \<and> whole_word_positions ascii_tables (ustr ''c++'')
        (str_lower ascii_tables (ustr ''I use C++ daily'')) = [6]"
  by code_simp

section \<open>find_matches: one entry per keyword\<close>

text \<open>
  Claim C1, as stated, fails: \<open>find_matches\<close> asks \<open>re.search\<close> once per cached row
  and appends the row at most once. In the text below the keyword \<open>saw\<close> occurs twice
  as a whole word, at positions 0 and 13, and is reported once.
\<close>

theorem find_matches_repeated_keyword_counterexample:
  "whole_word_positions ascii_tables (ustr ''saw'')
      (str_lower ascii_tables (ustr ''Saw blade or saw fence'')) = [0, 13]
   \<and> fst (find_matches ascii_tables example_db 0 new_matcher (ustr ''Saw blade or saw fence''))
       = Inr [example_row ''saw'' ''tools'' 5]"
  by code_simp

text \<open>
  Claim C1, amended. For a non-empty text, the matches \<open>find_matches\<close> returns are
  cached rows in cache order, and a keyword that starts and ends with a word character
  has as many entries among them as it has rows in the cache (one, keywords being
  unique by text) when it occurs at least once as a whole word in the lower-cased
  text, however often it occurs there, and none when it has no whole-word occurrence.
\<close>

theorem find_matches_one_entry_per_row:
  assumes "text \<noteq> []" and "fst (matcher_get_keywords db now m) = Inr keywords"
    and "k \<noteq> []" and "word_char u (hd k)" and "word_char u (last k)"
  shows "\<exists>matches. fst (find_matches u db now m text) = Inr matches
           \<and> subseq matches keywords
           \<and> occurrences k matches
               = (if whole_word_positions u k (str_lower u text) \<noteq> []
                  then occurrences k keywords else 0)"
proof -
  let ?found = "\<lambda>k'. re_search_word u k' (str_lower u text)"
  have ret: "fst (find_matches u db now m text) = Inr (filter (\<lambda>(k', c, w). ?found k') keywords)"
    by (rule find_matches_filter[OF assms(1,2)])
  have "occurrences k (filter (\<lambda>(k', c, w). ?found k') keywords)
      = (if ?found k then occurrences k keywords else 0)"
    by (rule occurrences_filter_key)
  then have "occurrences k (filter (\<lambda>(k', c, w). ?found k') keywords)
      = (if whole_word_positions u k (str_lower u text) \<noteq> [] then occurrences k keywords else 0)"
    by (simp add: re_search_word_edges[OF assms(3-5)])
  with ret show ?thesis
    by auto
qed

theorem find_matches_one_entry_per_row_witness:
  "fst (matcher_get_keywords example_db 0 new_matcher)
     = Inr [example_row ''safety'' ''general'' 5, example_row ''table saw'' ''high_value'' 8,
            example_row ''saw'' ''tools'' 5]
   \<and> whole_word_positions ascii_tables (ustr ''saw'')
        (str_lower ascii_tables (ustr ''Saw blade or saw fence'')) = [0, 13]
   \<and> (\<exists>matches. fst (find_matches ascii_tables example_db 0 new_matcher
                        (ustr ''Saw blade or saw fence'')) = Inr matches
         \<and> occurrences (ustr ''saw'') matches = 1)"
proof -
  have cached: "fst (matcher_get_keywords example_db 0 new_matcher)
     = Inr [example_row ''safety'' ''general'' 5, example_row ''table saw'' ''high_value'' 8,
            example_row ''saw'' ''tools'' 5]"
    by code_simp
  have twice: "whole_word_positions ascii_tables (ustr ''saw'')
        (str_lower ascii_tables (ustr ''Saw blade or saw fence'')) = [0, 13]"
    by code_simp
  have rows: "occurrences (ustr ''saw'')
      [example_row ''safety'' ''general'' 5, example_row ''table saw'' ''high_value'' 8,
       example_row ''saw'' ''tools'' 5] = 1"
    by (simp add: occurrences_def example_row_def)
  have nonempty: "ustr ''Saw blade or saw fence'' \<noteq> []"
    by simp
  have edges: "ustr ''saw'' \<noteq> []" "word_char ascii_tables (hd (ustr ''saw''))"
      "word_char ascii_tables (last (ustr ''saw''))"
    by (simp_all add: ascii_tables_def ustr_def)
  from find_matches_one_entry_per_row[OF nonempty cached edges] twice rows cached
  show ?thesis
    by auto
qed

section \<open>A failing keyword read\<close>

text \<open>
  Claim C2, as stated, fails: \<open>get_keywords\<close> catches \<open>sqlite3.Error\<close> and returns
  the empty list, which \<open>_get_keywords\<close> caches and returns like any other snapshot.
  With a failing store and a new matcher no exception reaches the caller;
  \<open>find_matches\<close> returns no match for a text that holds three stored keywords.
\<close>

theorem keyword_read_failure_counterexample:
  "matcher_get_keywords (example_db\<lparr>fault := Some Sqlite3_Error\<rparr>) 0 new_matcher
     = (Inr [], \<lparr>keyword_cache = Some [], cache_timestamp = Some 0\<rparr>)
   \<and> fst (find_matches ascii_tables (example_db\<lparr>fault := Some Sqlite3_Error\<rparr>) 0 new_matcher
            (ustr ''Table saw safety tips'')) = Inr []"
  by (simp add: find_matches_def example_db_def new_matcher_def matcher_get_keywords_def
        get_keywords_def select_keywords_def)

text \<open>
  Claim C2, amended. When the keyword read raises \<open>sqlite3.Error\<close> during a cache
  refresh, \<open>_get_keywords\<close> returns the empty list, stores it as the cache with the
  current time, and \<open>find_matches\<close> returns the empty match list for every text: no
  error reaches the caller.
\<close>

theorem keyword_read_failure_yields_empty:
  assumes "fault db = Some Sqlite3_Error"
    and "keyword_cache m = None \<or> cache_timestamp m = None
           \<or> now - the (cache_timestamp m) > cache_ttl * 1000000"
  shows "matcher_get_keywords db now m
           = (Inr [], m\<lparr>keyword_cache := Some [], cache_timestamp := Some now\<rparr>)
         \<and> fst (find_matches u db now m text) = Inr []"
  using assms
  by (auto simp: find_matches_def matcher_get_keywords_def get_keywords_def select_keywords_def)

theorem keyword_read_failure_yields_empty_witness:
  "matcher_get_keywords (example_db\<lparr>fault := Some Sqlite3_Error\<rparr>) 400000000
       \<lparr>keyword_cache = Some [example_row ''saw'' ''tools'' 5], cache_timestamp = Some 0\<rparr>
     = (Inr [], \<lparr>keyword_cache = Some [], cache_timestamp = Some 400000000\<rparr>)
   \<and> fst (find_matches ascii_tables (example_db\<lparr>fault := Some Sqlite3_Error\<rparr>) 400000000
        \<lparr>keyword_cache = Some [example_row ''saw'' ''tools'' 5], cache_timestamp = Some 0\<rparr>
        (ustr ''table saw'')) = Inr []"
  using keyword_read_failure_yields_empty
    [of "example_db\<lparr>fault := Some Sqlite3_Error\<rparr>"
        "\<lparr>keyword_cache = Some [example_row ''saw'' ''tools'' 5], cache_timestamp = Some 0\<rparr>"
        400000000 ascii_tables "ustr ''table saw''"]
  by (simp add: cache_ttl_def)

section \<open>The order of the keyword read\<close>

lemma sort_key_full_read:
  "(case a of (k, c, w) \<Rightarrow> (c, - w, k)) \<le> (case b of (k, c, w) \<Rightarrow> (c, - w, k))
     \<longleftrightarrow> category_weight_text a b"
  by (auto simp: category_weight_text_def less_eq_prod_def less_prod_def split: prod.splits)

lemma sort_key_category_read:
  "(case a of (k, c, w) \<Rightarrow> (- w, k)) \<le> (case b of (k, c, w) \<Rightarrow> (- w, k))
     \<longleftrightarrow> weight_then_text a b"
  by (auto simp: weight_then_text_def less_eq_prod_def less_prod_def split: prod.splits)

lemma sorted_full_read:
  "sorted_wrt category_weight_text (sort_key (\<lambda>(k, c, w). (c, - w, k)) tbl)"
proof -
  have "sorted (map (\<lambda>(k, c, w). (c, - w, k)) (sort_key (\<lambda>(k, c, w). (c, - w, k)) tbl))"
    by (rule sorted_sort_key)
  then show ?thesis
    by (simp add: sorted_map sort_key_full_read)
qed

lemma sorted_category_read:
  "sorted_wrt weight_then_text (sort_key (\<lambda>(k, c, w). (- w, k)) tbl)"
proof -
  have "sorted (map (\<lambda>(k, c, w). (- w, k)) (sort_key (\<lambda>(k, c, w). (- w, k)) tbl))"
    by (rule sorted_sort_key)
  then show ?thesis
    by (simp add: sorted_map sort_key_category_read)
qed

text \<open>
  The read with a category filter is the one ordered by weight descending, then
  keyword text.
\<close>

lemma get_keywords_category_order:
  assumes "get_keywords db (Some cat) = Inr rows" and "cat \<noteq> []"
  shows "sorted_wrt weight_then_text rows
         \<and> (fault db = None
              \<longrightarrow> mset rows = mset (filter (\<lambda>(k, c, w). c = cat) (keywords_table db)))"
  using assms
  by (auto simp: get_keywords_def select_keywords_def sorted_category_read
        split: option.splits exn.splits)

text \<open>
  Claim C8, as stated, fails: the read without a category filter is
  \<open>ORDER BY category, score_value DESC, keyword\<close>. For the example store it returns a
  row of weight 5 (category \<open>general\<close>) before a row of weight 8 (category
  \<open>high_value\<close>).
\<close>

theorem get_keywords_order_counterexample:
  "get_keywords example_db None
     = Inr [example_row ''safety'' ''general'' 5, example_row ''table saw'' ''high_value'' 8,
            example_row ''saw'' ''tools'' 5]
   \<and> \<not> sorted_wrt weight_then_text
         [example_row ''safety'' ''general'' 5, example_row ''table saw'' ''high_value'' 8,
          example_row ''saw'' ''tools'' 5]"
proof -
  have "get_keywords example_db None
     = Inr [example_row ''safety'' ''general'' 5, example_row ''table saw'' ''high_value'' 8,
            example_row ''saw'' ''tools'' 5]"
    by code_simp
  then show ?thesis
    by (simp add: weight_then_text_def example_row_def)
qed

text \<open>
  Claim C8, amended. The read without a category filter returns the stored keywords
  ordered by category ascending, then by weight descending, then by keyword text
  ascending; when the read raises \<open>sqlite3.Error\<close> it returns the empty list.
\<close>

theorem get_keywords_full_read_order:
  assumes "get_keywords db None = Inr rows"
  shows "sorted_wrt category_weight_text rows
         \<and> (fault db = None \<longrightarrow> mset rows = mset (keywords_table db))
         \<and> (fault db = Some Sqlite3_Error \<longrightarrow> rows = [])"
  using assms
  by (auto simp: get_keywords_def select_keywords_def sorted_full_read
        split: option.splits exn.splits)

theorem get_keywords_full_read_order_witness:
  "get_keywords example_db None
     = Inr [example_row ''safety'' ''general'' 5, example_row ''table saw'' ''high_value'' 8,
            example_row ''saw'' ''tools'' 5]
   \<and> sorted_wrt category_weight_text
        [example_row ''safety'' ''general'' 5, example_row ''table saw'' ''high_value'' 8,
         example_row ''saw'' ''tools'' 5]
   \<and> mset [example_row ''safety'' ''general'' 5, example_row ''table saw'' ''high_value'' 8,
            example_row ''saw'' ''tools'' 5] = mset (keywords_table example_db)"
proof -
  have read: "get_keywords example_db None
     = Inr [example_row ''safety'' ''general'' 5, example_row ''table saw'' ''high_value'' 8,
            example_row ''saw'' ''tools'' 5]"
    by code_simp
  have ok: "fault example_db = None"
    by (simp add: example_db_def)
  from get_keywords_full_read_order[OF read] ok read show ?thesis
    by blast
qed

section \<open>score_post: the composition of the score\<close>

lemma trunc_div_less:
  "trunc_div d 60000000 < 60 \<longleftrightarrow> d < 3600000000"
  unfolding trunc_div_def by (cases "0 \<le> d") (auto simp: zdiv_int)

lemma is_recent_iff: "is_recent now p \<longleftrightarrow> now - timestamp p < 3600000000"
  by (simp add: is_recent_def age_minutes_def trunc_div_less)

lemma find_matches_total:
  "fault db \<noteq> Some Other_Exception \<Longrightarrow> \<exists>ms m'. find_matches u db now m text = (Inr ms, m')"
  by (cases "fault db"; cases "the (fault db)")
     (auto simp: find_matches_def matcher_get_keywords_def get_keywords_def select_keywords_def
        split: option.splits exn.splits)

lemma score_post_total:
  assumes "fault db \<noteq> Some Other_Exception"
  shows "\<exists>r m'. score_post u cfg los db now m p = (Inr r, m')"
proof -
  obtain ms1 m1 where 1: "find_matches u db now m (title p) = (Inr ms1, m1)"
    using find_matches_total[OF assms] by blast
  obtain ms2 m2 where 2: "find_matches u db now m1 (content p) = (Inr ms2, m2)"
    using find_matches_total[OF assms] by blast
  show ?thesis
    by (simp add: score_post_def 1 2 Let_def)
qed

text \<open>
  Claim C4. Whenever \<open>score_post\<close> returns a result: its keyword score is
  \<open>calculate_keyword_score\<close> of a duplicate-free listing of the union of the title
  matches and the content matches (a tuple found in both is listed once); its time
  bonus is \<open>recent_post_bonus\<close> when the post is less than 60 minutes (3600000000
  microseconds) old and 0 otherwise; its link penalty is \<open>external_link_penalty\<close> when
  the post has external links and 0 otherwise; and the final score is the sum of the
  three. \<open>score_post\<close> returns a result unless a database read raises an exception
  other than \<open>sqlite3.Error\<close>.
\<close>

theorem score_post_composition:
  assumes "set_listing los"
  shows "(\<forall>r m'. score_post u cfg los db now m p = (Inr r, m') \<longrightarrow>
            (\<exists>title_matches content_matches m1.
                find_matches u db now m (title p) = (Inr title_matches, m1)
              \<and> find_matches u db now m1 (content p) = (Inr content_matches, m')
              \<and> distinct (los (title_matches @ content_matches))
              \<and> set (los (title_matches @ content_matches))
                   = set title_matches \<union> set content_matches
              \<and> keyword_score r = calculate_keyword_score (los (title_matches @ content_matches)))
          \<and> time_bonus r = (if now - timestamp p < 3600000000 then recent_post_bonus cfg else 0)
          \<and> link_penalty r = (if has_external_links p then external_link_penalty cfg else 0)
          \<and> final_score r = keyword_score r + time_bonus r + link_penalty r)
       \<and> (fault db \<noteq> Some Other_Exception
            \<longrightarrow> (\<exists>r m'. score_post u cfg los db now m p = (Inr r, m')))"
proof -
  have listing: "\<And>xs. distinct (los xs) \<and> set (los xs) = set xs"
    using assms by (simp add: set_listing_def)
  show ?thesis
    using score_post_total[of db u cfg los now m p]
    by (auto simp: score_post_def Let_def listing is_recent_iff split: prod.splits sum.splits)
qed

text \<open>
  A recent post with links whose title and content both hold \<open>table saw\<close> and
  \<open>saw\<close>: each keyword counts once. A post without keywords, two hours old, with
  links, scores below zero.
\<close>

theorem score_post_composition_witness:
  "(\<exists>r m'. score_post ascii_tables example_config remdups example_db example_now new_matcher
       (example_post REDDIT ''a'' ''Table saw safety tips'' ''My table saw has no guard''
          89700000000 True) = (Inr r, m')
      \<and> keyword_score r = 18 \<and> time_bonus r = 2 \<and> link_penalty r = - 1 \<and> final_score r = 19
      \<and> final_score r = keyword_score r + time_bonus r + link_penalty r)
   \<and> map_sum id final_score
        (fst (score_post ascii_tables example_config remdups example_db example_now new_matcher
           (example_post FACEBOOK ''l'' ''Look at my shop'' ''Photos'' 80000000000 True)))
      = Inr (- 1)"
proof -
  let ?p = "example_post REDDIT ''a'' ''Table saw safety tips'' ''My table saw has no guard''
              89700000000 True"
  have listing: "set_listing (remdups :: keyword_row list \<Rightarrow> keyword_row list)"
    by (simp add: set_listing_def)
  have ok: "fault example_db \<noteq> Some Other_Exception"
    by (simp add: example_db_def)
  have run: "map_sum id (\<lambda>r. (keyword_score r, time_bonus r, link_penalty r, final_score r))
      (fst (score_post ascii_tables example_config remdups example_db example_now new_matcher ?p))
      = Inr (18, 2, - 1, 19)"
    by code_simp
  have below: "map_sum id final_score
        (fst (score_post ascii_tables example_config remdups example_db example_now new_matcher
           (example_post FACEBOOK ''l'' ''Look at my shop'' ''Photos'' 80000000000 True)))
      = Inr (- 1)"
    by code_simp
  from score_post_composition[OF listing, of ascii_tables example_config example_db example_now
      new_matcher ?p] ok
  obtain r m' where ret: "score_post ascii_tables example_config remdups example_db example_now
      new_matcher ?p = (Inr r, m')"
    and sum: "final_score r = keyword_score r + time_bonus r + link_penalty r"
    by blast
  from run ret have "keyword_score r = 18 \<and> time_bonus r = 2 \<and> link_penalty r = - 1
      \<and> final_score r = 19"
    by simp
  with ret sum below show ?thesis
    by blast
qed

section \<open>Posts dated in the future\<close>

lemma age_minutes_future: "now \<le> timestamp p \<Longrightarrow> age_minutes now p \<le> 0"
  by (auto simp: age_minutes_def trunc_div_def)

text \<open>
  \<open>filter_by_age\<close> returns a list exactly when the hours make a \<open>timedelta\<close> and the
  cutoff is a \<open>datetime\<close>; the list holds the posts at or after the cutoff.
\<close>

lemma filter_by_age_returns:
  "filter_by_age now posts h = Inr kept \<longleftrightarrow>
     - 23999999976 \<le> h \<and> h \<le> 23999999999
     \<and> datetime_min \<le> now - h * 3600000000 \<and> now - h * 3600000000 \<le> datetime_max
     \<and> kept = filter (\<lambda>p. now - h * 3600000000 \<le> timestamp p) posts"
  by (auto simp: filter_by_age_def timedelta_hours_def datetime_minus_def)

lemma filter_by_age_raises:
  "filter_by_age now posts h = Inl e \<longleftrightarrow>
     e = Other_Exception
     \<and> \<not> (- 23999999976 \<le> h \<and> h \<le> 23999999999
          \<and> datetime_min \<le> now - h * 3600000000 \<and> now - h * 3600000000 \<le> datetime_max)"
  by (auto simp: filter_by_age_def timedelta_hours_def datetime_minus_def)

text \<open>
  Claim C10, as stated, fails for a negative \<open>max_age_hours\<close>: the cutoff then lies
  after the current time, and a post dated exactly now is dropped.
\<close>

theorem filter_by_age_negative_hours_counterexample:
  "timestamp (example_post REDDIT ''n'' ''Posted now'' [] example_now False) \<ge> example_now
   \<and> filter_by_age example_now
        [example_post REDDIT ''n'' ''Posted now'' [] example_now False] (- 1) = Inr []"
  by (simp add: filter_by_age_def timedelta_hours_def datetime_minus_def datetime_min_def
        datetime_max_def example_post_def example_now_def)

text \<open>
  Claim C10, amended. For a post whose timestamp is at or after the current time and a
  \<open>max_age_hours\<close> that is not negative: every list \<open>filter_by_age\<close> returns keeps
  the post, at its place; \<open>filter_by_age\<close> returns a list when the cutoff, the
  current time minus \<open>max_age_hours\<close> hours, is a \<open>datetime\<close>, and raises
  \<open>OverflowError\<close> when the cutoff lies before \<open>datetime_min\<close>. The truncated age of
  the post in minutes is at most 0, so it is recent, and every result \<open>score_post\<close>
  returns for it carries the full \<open>recent_post_bonus\<close>.
\<close>

theorem future_post_kept_and_recent:
  assumes "now \<le> timestamp p" and "0 \<le> max_age_hours"
  shows "(\<forall>kept. filter_by_age now (ps @ p # qs) max_age_hours = Inr kept \<longrightarrow>
            (\<exists>a b. filter_by_age now ps max_age_hours = Inr a
               \<and> filter_by_age now qs max_age_hours = Inr b \<and> kept = a @ p # b))
         \<and> (datetime_min \<le> now - max_age_hours * 3600000000 \<and> now \<le> datetime_max
              \<longrightarrow> (\<exists>kept. filter_by_age now (ps @ p # qs) max_age_hours = Inr kept))
         \<and> (now - max_age_hours * 3600000000 < datetime_min
              \<longrightarrow> filter_by_age now (ps @ p # qs) max_age_hours = Inl Other_Exception)
         \<and> age_minutes now p \<le> 0 \<and> is_recent now p
         \<and> (\<forall>r m'. score_post u cfg los db now m p = (Inr r, m')
               \<longrightarrow> time_bonus r = recent_post_bonus cfg)"
proof (intro conjI allI impI)
  have delta: "0 \<le> max_age_hours * 3600000000"
    using assms(2) by simp
  with assms(1) have keep: "now - max_age_hours * 3600000000 \<le> timestamp p"
    by linarith
  fix kept assume "filter_by_age now (ps @ p # qs) max_age_hours = Inr kept"
  then show "\<exists>a b. filter_by_age now ps max_age_hours = Inr a
               \<and> filter_by_age now qs max_age_hours = Inr b \<and> kept = a @ p # b"
    using keep by (simp add: filter_by_age_returns)
next
  assume range: "datetime_min \<le> now - max_age_hours * 3600000000 \<and> now \<le> datetime_max"
  then have "max_age_hours * 3600000000 \<le> datetime_max - datetime_min"
    by linarith
  then have "max_age_hours \<le> 23999999999"
    by (simp add: datetime_min_def datetime_max_def)
  with range assms(2) show "\<exists>kept. filter_by_age now (ps @ p # qs) max_age_hours = Inr kept"
    by (simp add: filter_by_age_returns)
next
  assume "now - max_age_hours * 3600000000 < datetime_min"
  then show "filter_by_age now (ps @ p # qs) max_age_hours = Inl Other_Exception"
    by (simp add: filter_by_age_raises)
next
  show "age_minutes now p \<le> 0"
    by (rule age_minutes_future[OF assms(1)])
next
  show "is_recent now p"
    using assms(1) by (simp add: is_recent_iff)
next
  fix r m' assume "score_post u cfg los db now m p = (Inr r, m')"
  moreover have "is_recent now p"
    using assms(1) by (simp add: is_recent_iff)
  ultimately show "time_bonus r = recent_post_bonus cfg"
    by (auto simp: score_post_def Let_def split: prod.splits sum.splits)
qed

theorem future_post_kept_and_recent_witness:
  "filter_by_age example_now
       [example_post REDDIT ''f'' ''Table saw from the future'' [] 108000000000 False] 24
     = Inr [example_post REDDIT ''f'' ''Table saw from the future'' [] 108000000000 False]
   \<and> filter_by_age example_now
       [example_post REDDIT ''f'' ''Table saw from the future'' [] 108000000000 False] 17700000
     = Inl Other_Exception
   \<and> age_minutes example_now
        (example_post REDDIT ''f'' ''Table saw from the future'' [] 108000000000 False) = - 300
   \<and> is_recent example_now
        (example_post REDDIT ''f'' ''Table saw from the future'' [] 108000000000 False)
   \<and> (\<exists>r m'. score_post ascii_tables example_config remdups example_db example_now new_matcher
          (example_post REDDIT ''f'' ''Table saw from the future'' [] 108000000000 False)
        = (Inr r, m') \<and> time_bonus r = 2)"
proof -
  let ?p = "example_post REDDIT ''f'' ''Table saw from the future'' [] 108000000000 False"
  have future: "example_now \<le> timestamp ?p"
    by (simp add: example_now_def example_post_def)
  have hours: "(0::int) \<le> 24" "(0::int) \<le> 17700000"
    by simp_all
  have day: "datetime_min \<le> example_now - 24 * 3600000000 \<and> example_now \<le> datetime_max"
    by (simp add: example_now_def datetime_min_def datetime_max_def)
  have ages: "example_now - 17700000 * 3600000000 < datetime_min"
    by (simp add: example_now_def datetime_min_def)
  have age: "age_minutes example_now ?p = - 300"
    by (simp add: age_minutes_def trunc_div_def example_now_def example_post_def)
  have bonus: "recent_post_bonus example_config = 2"
    by (simp add: example_config_def)
  have ok: "fault example_db \<noteq> Some Other_Exception"
    by (simp add: example_db_def)
  obtain r m' where ret: "score_post ascii_tables example_config remdups example_db example_now
      new_matcher ?p = (Inr r, m')"
    using score_post_total[OF ok] by blast
  note day_case = future_post_kept_and_recent[OF future hours(1), of "[]" "[]" ascii_tables
      example_config remdups example_db new_matcher]
  note ages_case = future_post_kept_and_recent[OF future hours(2), of "[]" "[]" ascii_tables
      example_config remdups example_db new_matcher]
  from day_case day obtain kept where
      kept: "filter_by_age example_now ([] @ ?p # []) 24 = Inr kept"
    by blast
  with day_case have "kept = [?p]"
    by (auto simp: filter_by_age_returns)
  with kept have one: "filter_by_age example_now [?p] 24 = Inr [?p]"
    by simp
  from ages_case ages have two: "filter_by_age example_now [?p] 17700000 = Inl Other_Exception"
    by simp
  from day_case ret bonus have three: "time_bonus r = 2"
    by simp
  from day_case have four: "is_recent example_now ?p"
    by blast
  from one two three four age ret show ?thesis
    by blast
qed

section \<open>process_posts: the returned list\<close>

lemma filter_processed_loop_total:
  "fault db \<noteq> Some Other_Exception \<Longrightarrow> \<exists>ps'. filter_processed_loop db acc ps = Inr ps'"
  by (induction ps arbitrary: acc)
     (auto simp: is_post_processed_def split: option.splits exn.splits)

lemma filter_by_age_day_total:
  "day_before_is_datetime now \<Longrightarrow> \<exists>kept. filter_by_age now posts 24 = Inr kept"
  by (simp add: filter_by_age_returns day_before_is_datetime_def)

lemma sort_key_descending:
  "sorted_wrt (\<lambda>a b. final_score a \<ge> final_score b) (sort_key (\<lambda>r. - final_score r) rs)"
proof -
  have "sorted (map (\<lambda>r. - final_score r) (sort_key (\<lambda>r. - final_score r) rs))"
    by (rule sorted_sort_key)
  then show ?thesis by (simp add: sorted_map)
qed

lemma filter_top_posts_take: "\<exists>n. filter_top_posts cfg rs = take n rs"
proof (cases "int (length rs) \<le> max_posts_per_run cfg")
  case True
  then have "filter_top_posts cfg rs = take (length rs) rs"
    by (simp add: filter_top_posts_def)
  then show ?thesis by blast
next
  case False
  then show ?thesis
    by (auto simp: filter_top_posts_def slice_to_def Let_def)
qed

lemma filter_top_posts_length:
  "0 \<le> max_posts_per_run cfg \<Longrightarrow> int (length (filter_top_posts cfg rs)) \<le> max_posts_per_run cfg"
  by (auto simp: filter_top_posts_def slice_to_def Let_def)

lemma prefix_filter_take: "prefix (filter P (take n xs)) (filter P xs)"
proof -
  have "filter P xs = filter P (take n xs) @ filter P (drop n xs)"
    by (metis append_take_drop_id filter_append)
  then show ?thesis by (simp add: prefix_def)
qed

lemma sort_key_descending_stable:
  "filter (\<lambda>r. final_score r = s) (sort_key (\<lambda>r. - final_score r) rs)
     = filter (\<lambda>r. final_score r = s) rs"
  using sort_key_stable[of "\<lambda>r. - final_score r" "- s" rs] by simp

lemma score_floor_then_cap:
  fixes cfg :: ScoringConfig and scored :: "ScoringResult list"
  defines "rs \<equiv> filter_top_posts cfg (filter_by_score (sort_key (\<lambda>r. - final_score r) scored) 1)"
  shows "sorted_wrt (\<lambda>a b. final_score a \<ge> final_score b) rs"
    and "\<forall>r\<in>set rs. final_score r \<ge> 1"
    and "0 \<le> max_posts_per_run cfg \<longrightarrow> int (length rs) \<le> max_posts_per_run cfg"
    and "prefix (filter (\<lambda>r. final_score r = s) rs) (filter (\<lambda>r. final_score r = s) scored)"
proof -
  let ?sorted = "sort_key (\<lambda>r. - final_score r) scored"
  let ?floor = "filter_by_score ?sorted 1"
  obtain n where n: "rs = take n ?floor"
    unfolding rs_def using filter_top_posts_take by blast
  have sf: "sorted_wrt (\<lambda>a b. final_score a \<ge> final_score b) ?floor"
    unfolding filter_by_score_def by (rule sorted_wrt_filter[OF sort_key_descending])
  show "sorted_wrt (\<lambda>a b. final_score a \<ge> final_score b) rs"
    unfolding n by (rule sorted_wrt_take[OF sf])
  show "\<forall>r\<in>set rs. final_score r \<ge> 1"
    unfolding n by (auto simp: filter_by_score_def dest: in_set_takeD)
  show "0 \<le> max_posts_per_run cfg \<longrightarrow> int (length rs) \<le> max_posts_per_run cfg"
    unfolding rs_def by (simp add: filter_top_posts_length)
  have "filter (\<lambda>r. final_score r = s) ?floor
      = filter (\<lambda>r. 1 \<le> final_score r) (filter (\<lambda>r. final_score r = s) ?sorted)"
    by (simp add: filter_by_score_def conj_commute)
  also have "\<dots> = filter (\<lambda>r. 1 \<le> final_score r) (filter (\<lambda>r. final_score r = s) scored)"
    by (simp only: sort_key_descending_stable)
  finally have "filter (\<lambda>r. final_score r = s) ?floor
      = (if 1 \<le> s then filter (\<lambda>r. final_score r = s) scored else [])"
    by (auto intro: filter_cong)
  then have "prefix (filter (\<lambda>r. final_score r = s) ?floor) (filter (\<lambda>r. final_score r = s) scored)"
    by simp
  moreover have "prefix (filter (\<lambda>r. final_score r = s) rs) (filter (\<lambda>r. final_score r = s) ?floor)"
    unfolding n by (rule prefix_filter_take)
  ultimately show "prefix (filter (\<lambda>r. final_score r = s) rs) (filter (\<lambda>r. final_score r = s) scored)"
    by (rule prefix_order.order_trans[rotated])
qed

text \<open>
  Claim C7, as stated, fails for a negative \<open>max_posts_per_run\<close>, which the
  configuration loader accepts: the length test of \<open>filter_top_posts\<close> is then false
  for every list and the slice \<open>[:max_posts]\<close> drops results from the end only. With
  a cap of \<open>- 1\<close> the example run returns two results.
\<close>

theorem process_posts_cap_counterexample:
  "map_sum id (map (\<lambda>r. (post_id (post r), final_score r)))
     (fst (process_posts ascii_tables (example_config\<lparr>max_posts_per_run := - 1\<rparr>) remdups
        example_db example_now new_matcher example_posts))
     = Inr [(ustr ''a'', 20), (ustr ''b'', 7)]
   \<and> \<not> int (length [(ustr ''a'', 20::int), (ustr ''b'', 7)])
         \<le> max_posts_per_run (example_config\<lparr>max_posts_per_run := - 1\<rparr>)"
proof -
  have "map_sum id (map (\<lambda>r. (post_id (post r), final_score r)))
     (fst (process_posts ascii_tables (example_config\<lparr>max_posts_per_run := - 1\<rparr>) remdups
        example_db example_now new_matcher example_posts))
     = Inr [(ustr ''a'', 20), (ustr ''b'', 7)]"
    by code_simp
  then show ?thesis
    by (simp add: example_config_def)
qed

text \<open>
  Claim C7, amended. Every list \<open>process_posts\<close> returns is sorted by \<open>final_score\<close>
  descending; for every score, its results of that score are an initial part of the
  results of that score in the order in which they were scored; every result has
  \<open>final_score \<ge> 1\<close>; when \<open>max_posts_per_run\<close> is not negative the list has at
  most that many results; and when the filter stage leaves no posts the list is
  empty. \<open>process_posts\<close> returns a list unless a database read raises an exception
  other than \<open>sqlite3.Error\<close> or the clock reads a time for which the cutoff, one
  day earlier, is no \<open>datetime\<close>; in the latter case \<open>filter_by_age\<close> raises
  \<open>OverflowError\<close>.
\<close>

theorem process_posts_result:
  "(\<forall>rs m'. process_posts u cfg los db now m posts = (Inr rs, m') \<longrightarrow>
       sorted_wrt (\<lambda>a b. final_score a \<ge> final_score b) rs
     \<and> (\<forall>r\<in>set rs. final_score r \<ge> 1)
     \<and> (0 \<le> max_posts_per_run cfg \<longrightarrow> int (length rs) \<le> max_posts_per_run cfg)
     \<and> (\<exists>unprocessed filtered_posts.
            filter_processed db (filter_duplicates posts) = Inr unprocessed
          \<and> filter_by_age now unprocessed 24 = Inr filtered_posts
          \<and> (filtered_posts = [] \<longrightarrow> rs = [])
          \<and> (\<forall>s. prefix (filter (\<lambda>r. final_score r = s) rs)
                 (filter (\<lambda>r. final_score r = s)
                    (fst (score_posts_loop u cfg los db now m [] filtered_posts))))))
   \<and> (fault db \<noteq> Some Other_Exception \<and> day_before_is_datetime now
        \<longrightarrow> (\<exists>rs m'. process_posts u cfg los db now m posts = (Inr rs, m')))
   \<and> (fault db \<noteq> Some Other_Exception \<and> \<not> day_before_is_datetime now
        \<longrightarrow> process_posts u cfg los db now m posts = (Inl Other_Exception, m))"
proof (intro conjI allI impI)
  fix rs m' assume ret: "process_posts u cfg los db now m posts = (Inr rs, m')"
  then obtain unprocessed where up: "filter_processed db (filter_duplicates posts) = Inr unprocessed"
    by (auto simp: process_posts_def split: sum.splits)
  with ret obtain fa where fa: "filter_by_age now unprocessed 24 = Inr fa"
    by (auto simp: process_posts_def split: sum.splits)
  let ?scored = "fst (score_posts_loop u cfg los db now m [] fa)"
  have cases: "(fa = [] \<and> rs = []) \<or>
      rs = filter_top_posts cfg (filter_by_score (sort_key (\<lambda>r. - final_score r) ?scored) 1)"
    using ret up fa
    by (auto simp: process_posts_def score_posts_def split: prod.splits if_splits)
  show "sorted_wrt (\<lambda>a b. final_score a \<ge> final_score b) rs"
    using cases score_floor_then_cap(1)[where cfg=cfg and scored="?scored"] by auto
  show "\<forall>r\<in>set rs. final_score r \<ge> 1"
    using cases score_floor_then_cap(2)[where cfg=cfg and scored="?scored"] by auto
  show "int (length rs) \<le> max_posts_per_run cfg" if "0 \<le> max_posts_per_run cfg"
    using cases score_floor_then_cap(3)[where cfg=cfg and scored="?scored"] that by auto
  have e: "fa = [] \<longrightarrow> rs = []"
    using ret up fa by (auto simp: process_posts_def)
  have st: "\<forall>s. prefix (filter (\<lambda>r. final_score r = s) rs) (filter (\<lambda>r. final_score r = s) ?scored)"
    using cases score_floor_then_cap(4)[where cfg=cfg and scored="?scored"] by auto
  show "\<exists>unprocessed filtered_posts.
            filter_processed db (filter_duplicates posts) = Inr unprocessed
          \<and> filter_by_age now unprocessed 24 = Inr filtered_posts
          \<and> (filtered_posts = [] \<longrightarrow> rs = [])
          \<and> (\<forall>s. prefix (filter (\<lambda>r. final_score r = s) rs)
                 (filter (\<lambda>r. final_score r = s)
                    (fst (score_posts_loop u cfg los db now m [] filtered_posts))))"
    using up fa e st by blast
next
  assume "fault db \<noteq> Some Other_Exception \<and> day_before_is_datetime now"
  then obtain ps' fa where "filter_processed db (filter_duplicates posts) = Inr ps'"
      and "filter_by_age now ps' 24 = Inr fa"
    unfolding filter_processed_def
    using filter_processed_loop_total filter_by_age_day_total by blast
  then show "\<exists>rs m'. process_posts u cfg los db now m posts = (Inr rs, m')"
    by (auto simp: process_posts_def split: prod.splits)
next
  assume early: "fault db \<noteq> Some Other_Exception \<and> \<not> day_before_is_datetime now"
  then obtain ps' where "filter_processed db (filter_duplicates posts) = Inr ps'"
    unfolding filter_processed_def using filter_processed_loop_total by blast
  moreover from early have "filter_by_age now ps' 24 = Inl Other_Exception"
    by (auto simp: filter_by_age_raises day_before_is_datetime_def)
  ultimately show "process_posts u cfg los db now m posts = (Inl Other_Exception, m)"
    by (simp add: process_posts_def)
qed

theorem process_posts_result_witness:
  "\<exists>rs m'. process_posts ascii_tables example_config remdups example_db example_now new_matcher
         example_posts = (Inr rs, m')
     \<and> map (\<lambda>r. (post_id (post r), final_score r)) rs
         = [(ustr ''a'', 20), (ustr ''b'', 7), (ustr ''c'', 7)]
     \<and> sorted_wrt (\<lambda>a b. final_score a \<ge> final_score b) rs
     \<and> list_all (\<lambda>r. final_score r \<ge> 1) rs
     \<and> int (length rs) \<le> max_posts_per_run example_config"
proof -
  have ok: "fault example_db \<noteq> Some Other_Exception"
    by (simp add: example_db_def)
  have clock: "day_before_is_datetime example_now"
    by (simp add: day_before_is_datetime_def example_now_def datetime_min_def datetime_max_def)
  have cap: "0 \<le> max_posts_per_run example_config"
    by (simp add: example_config_def)
  have run: "map_sum id (map (\<lambda>r. (post_id (post r), final_score r)))
     (fst (process_posts ascii_tables example_config remdups example_db example_now new_matcher
        example_posts))
     = Inr [(ustr ''a'', 20), (ustr ''b'', 7), (ustr ''c'', 7)]"
    by code_simp
  note spec = process_posts_result[of ascii_tables example_config remdups example_db example_now
      new_matcher example_posts]
  from spec ok clock obtain rs m' where ret:
      "process_posts ascii_tables example_config remdups example_db example_now new_matcher
         example_posts = (Inr rs, m')"
    by blast
  from spec ret cap have props: "sorted_wrt (\<lambda>a b. final_score a \<ge> final_score b) rs"
      "\<forall>r\<in>set rs. final_score r \<ge> 1" "int (length rs) \<le> max_posts_per_run example_config"
    by blast+
  from run ret have "map (\<lambda>r. (post_id (post r), final_score r)) rs
      = [(ustr ''a'', 20), (ustr ''b'', 7), (ustr ''c'', 7)]"
    by simp
  with ret props show ?thesis
    by (auto simp: list_all_iff)
qed


end
